theory Spec2Isabelle
  imports Complex_Main
begin

section \<open>Go-Back-N simulator: the protocol engine of GoBackNsim.py\<close>

text \<open>
  The embedding follows the classes of the source: \<open>Packet\<close>, \<open>Channel\<close>, \<open>Sender\<close>,
  \<open>Receiver\<close> and the logic part of \<open>GbnSimulator\<close> (\<open>start_sim\<close>, \<open>stop_sim\<close>,
  \<open>simulation_tick\<close>, \<open>process_channel_only\<close>). Python's unbounded integers are \<open>int\<close>.
  The fractional time stamps of the channel (Python floats: tick + burst offset + delay,
  burst offsets growing by 0.2) are exact rationals here; the invariants below hold
  whatever the time stamps are, since they never look at them. The Tk widgets (log area,
  labels, canvas) and the scheduling calls \<open>root.after\<close> are not part of the state; the
  text of the two loss entry fields is taken after its conversion to integer lists.
\<close>

subsection \<open>Packet\<close>

datatype ptype = DATA | ACK

record Packet =
  type :: ptype
  seq_num :: int
  data :: "string option"

text \<open>Decimal rendering of an integer, as the f-string \<open>f"Payload_{seq}"\<close> does.\<close>

fun str_nat :: "nat \<Rightarrow> string" where
  "str_nat n =
     (if n < 10 then [char_of (48 + n)]
      else str_nat (n div 10) @ [char_of (48 + n mod 10)])"

declare str_nat.simps [simp del]

definition str_int :: "int \<Rightarrow> string" where
  "str_int i = (if i < 0 then CHR ''-'' # str_nat (nat (- i)) else str_nat (nat i))"

subsection \<open>Channel\<close>

datatype dest = Sender | Receiver

datatype status = SENT | DROP

type_synonym item = "rat \<times> Packet \<times> dest \<times> rat"

record Channel =
  loss_data :: "int list"
  loss_ack :: "int list"
  delay :: int
  packet_queue :: "item list"

definition Channel_init :: "int list \<Rightarrow> int list \<Rightarrow> int \<Rightarrow> Channel" where
  "Channel_init loss_data_list loss_ack_list d =
     \<lparr>loss_data = loss_data_list, loss_ack = loss_ack_list, delay = d, packet_queue = []\<rparr>"

text \<open>
  \<open>send_to_network\<close>: the first part decides the drop and consumes one occurrence of the
  sequence number in the loss list of the packet's kind (\<open>list.remove\<close> deletes the first
  occurrence); a packet that is not dropped is appended to the queue.
\<close>

definition check_loss :: "Channel \<Rightarrow> Packet \<Rightarrow> bool \<times> Channel" where
  "check_loss ch packet =
     (case type packet of
        DATA \<Rightarrow>
          if seq_num packet \<in> set (loss_data ch)
          then (True, ch\<lparr>loss_data := remove1 (seq_num packet) (loss_data ch)\<rparr>)
          else (False, ch)
      | ACK \<Rightarrow>
          if seq_num packet \<in> set (loss_ack ch)
          then (True, ch\<lparr>loss_ack := remove1 (seq_num packet) (loss_ack ch)\<rparr>)
          else (False, ch))"

definition send_to_network :: "Channel \<Rightarrow> Packet \<Rightarrow> dest \<Rightarrow> rat \<Rightarrow> rat \<Rightarrow> status \<times> Channel" where
  "send_to_network ch packet destination current_time offset =
     (let (drop, ch1) = check_loss ch packet in
      if drop then (DROP, ch1)
      else
        let send_time_float = current_time + offset;
            arrival_time_float = send_time_float + of_int (delay ch1)
        in (SENT, ch1\<lparr>packet_queue :=
              packet_queue ch1 @ [(arrival_time_float, packet, destination, send_time_float)]\<rparr>))"

definition get_delivered_packets :: "Channel \<Rightarrow> int \<Rightarrow> item list \<times> Channel" where
  "get_delivered_packets ch current_time =
     (let delivered = filter (\<lambda>item. of_int current_time \<ge> fst item) (packet_queue ch);
          keep_in_queue = filter (\<lambda>item. \<not> of_int current_time \<ge> fst item) (packet_queue ch)
      in (delivered, ch\<lparr>packet_queue := keep_in_queue\<rparr>))"

subsection \<open>Sender and Receiver\<close>

record Sender =
  window_size :: int
  total_packets :: int
  timeout :: int
  base :: int
  next_seq :: int
  buffer :: "int \<rightharpoonup> Packet"
  timer_start :: int
  retransmissions :: int
  duplicate_pkts :: int

definition Sender_init :: "int \<Rightarrow> int \<Rightarrow> int \<Rightarrow> Sender" where
  "Sender_init win tot tmo =
     \<lparr>window_size = win, total_packets = tot, timeout = tmo, base = 0, next_seq = 0,
      buffer = Map.empty, timer_start = - 1, retransmissions = 0, duplicate_pkts = 0\<rparr>"

definition check_timer :: "Sender \<Rightarrow> int \<Rightarrow> bool" where
  "check_timer sdr current_time =
     (if base sdr = next_seq sdr then False
      else if current_time - timer_start sdr \<ge> timeout sdr then True
      else False)"

record Receiver =
  expected_seq :: int
  delivered_count :: int
  last_ack_sent :: int

definition Receiver_init :: Receiver where
  "Receiver_init = \<lparr>expected_seq = 0, delivered_count = 0, last_ack_sent = - 1\<rparr>"

subsection \<open>The simulator: start, stop and the tick\<close>

datatype error = KeyError

record config =
  cfg_total :: int
  cfg_win :: int
  cfg_timeout :: int
  cfg_delay :: int
  cfg_data_drops :: "int list"
  cfg_ack_drops :: "int list"

record GbnSimulator =
  running :: bool
  is_finishing :: bool
  current_time :: int
  sender :: Sender
  receiver :: Receiver
  channel :: Channel

definition start_sim :: "config \<Rightarrow> GbnSimulator" where
  "start_sim cfg =
     \<lparr>running = True, is_finishing = False, current_time = 0,
      sender = Sender_init (cfg_win cfg) (cfg_total cfg) (cfg_timeout cfg),
      receiver = Receiver_init,
      channel = Channel_init (cfg_data_drops cfg) (cfg_ack_drops cfg) (cfg_delay cfg)\<rparr>"

definition stop_sim :: "GbnSimulator \<Rightarrow> GbnSimulator" where
  "stop_sim s = s\<lparr>running := False, is_finishing := False\<rparr>"

text \<open>
  One iteration of the loop of \<open>process_channel_only\<close>: the receiver branch for a DATA
  packet addressed to the receiver, the sender branch for an ACK addressed to the sender,
  nothing for any other item.
\<close>

definition process_item :: "item \<Rightarrow> GbnSimulator \<Rightarrow> GbnSimulator" where
  "process_item item s =
     (case item of (arrival_time, pkt, dst, send_time) \<Rightarrow>
        if dst = Receiver \<and> type pkt = DATA then
          (if seq_num pkt = expected_seq (receiver s) then
             let rcv = (receiver s)\<lparr>delivered_count := delivered_count (receiver s) + 1,
                                    expected_seq := expected_seq (receiver s) + 1,
                                    last_ack_sent := seq_num pkt\<rparr>;
                 ack = \<lparr>type = ACK, seq_num = seq_num pkt, data = None\<rparr>
             in s\<lparr>receiver := rcv,
                  channel := snd (send_to_network (channel s) ack Sender arrival_time 0)\<rparr>
           else if seq_num pkt < expected_seq (receiver s) then s
           else if expected_seq (receiver s) > 0 then
             let last_ack = expected_seq (receiver s) - 1 in
             if last_ack_sent (receiver s) = last_ack then s
             else
               let rcv = (receiver s)\<lparr>last_ack_sent := last_ack\<rparr>;
                   ack = \<lparr>type = ACK, seq_num = last_ack, data = None\<rparr>
               in s\<lparr>receiver := rcv,
                    channel := snd (send_to_network (channel s) ack Sender arrival_time 0)\<rparr>
           else s)
        else if dst = Sender \<and> type pkt = ACK then
          (if seq_num pkt \<ge> base (sender s) then
             let sdr = (sender s)\<lparr>base := seq_num pkt + 1\<rparr> in
             if base sdr < next_seq sdr
             then s\<lparr>sender := sdr\<lparr>timer_start := current_time s\<rparr>\<rparr>
             else s\<lparr>sender := sdr\<lparr>timer_start := - 1\<rparr>\<rparr>
           else s)
        else s)"

fun process_items :: "item list \<Rightarrow> GbnSimulator \<Rightarrow> GbnSimulator" where
  "process_items [] s = s"
| "process_items (item # arrivals) s = process_items arrivals (process_item item s)"

definition process_channel_only :: "GbnSimulator \<Rightarrow> GbnSimulator" where
  "process_channel_only s =
     (let (arrivals, ch) = get_delivered_packets (channel s) (current_time s)
      in process_items arrivals (s\<lparr>channel := ch\<rparr>))"

text \<open>
  Step 1 of the tick, the retransmission of the whole window. The loop runs over
  \<open>range(base, next_seq)\<close>; reading \<open>buffer[seq]\<close> raises \<open>KeyError\<close> for a missing key.
\<close>

fun retransmit_window :: "int list \<Rightarrow> rat \<Rightarrow> GbnSimulator \<Rightarrow> error + GbnSimulator" where
  "retransmit_window [] burst_offset s = Inr s"
| "retransmit_window (seq # seqs) burst_offset s =
     (let sdr = (sender s)\<lparr>duplicate_pkts := duplicate_pkts (sender s) + 1\<rparr> in
      case buffer sdr seq of
        None \<Rightarrow> Inl KeyError
      | Some pkt \<Rightarrow>
          retransmit_window seqs (burst_offset + 1 / 5)
            (s\<lparr>sender := sdr,
               channel := snd (send_to_network (channel s) pkt Receiver
                                 (of_int (current_time s)) burst_offset)\<rparr>))"

definition timeout_check :: "GbnSimulator \<Rightarrow> error + GbnSimulator" where
  "timeout_check s =
     (if check_timer (sender s) (current_time s) then
        let sdr = (sender s)\<lparr>retransmissions := retransmissions (sender s) + 1,
                              timer_start := current_time s\<rparr>
        in retransmit_window [base sdr..next_seq sdr - 1] 0 (s\<lparr>sender := sdr\<rparr>)
      else Inr s)"

text \<open>Step 2 of the tick, the burst of new packets (the \<open>while\<close> loop).\<close>

definition can_send :: "Sender \<Rightarrow> bool" where
  "can_send sdr \<longleftrightarrow>
     next_seq sdr < base sdr + window_size sdr \<and> next_seq sdr < total_packets sdr"

definition new_packet :: "int \<Rightarrow> Packet" where
  "new_packet seq = \<lparr>type = DATA, seq_num = seq, data = Some (''Payload_'' @ str_int seq)\<rparr>"

definition send_one :: "rat \<Rightarrow> GbnSimulator \<Rightarrow> GbnSimulator" where
  "send_one burst_offset s =
     (let seq = next_seq (sender s);
          pkt = new_packet seq;
          sdr1 = (sender s)\<lparr>buffer := (buffer (sender s))(seq \<mapsto> pkt)\<rparr>;
          sdr2 = (if base sdr1 = next_seq sdr1 then sdr1\<lparr>timer_start := current_time s\<rparr>
                  else sdr1);
          ch = snd (send_to_network (channel s) pkt Receiver (of_int (current_time s))
                      burst_offset)
      in s\<lparr>sender := sdr2\<lparr>next_seq := next_seq sdr2 + 1\<rparr>, channel := ch\<rparr>)"

function send_burst :: "rat \<Rightarrow> GbnSimulator \<Rightarrow> GbnSimulator" where
  "send_burst burst_offset s =
     (if can_send (sender s) then send_burst (burst_offset + 1 / 5) (send_one burst_offset s)
      else s)"
  by pat_completeness auto
termination
  by (relation "measure (\<lambda>(off, s).
        nat (min (base (sender s) + window_size (sender s)) (total_packets (sender s))
             - next_seq (sender s)))")
     (auto simp: can_send_def send_one_def Let_def)

declare send_burst.simps [simp del]

definition simulation_tick :: "GbnSimulator \<Rightarrow> error + GbnSimulator" where
  "simulation_tick s =
     (if \<not> running s then Inr s
      else if base (sender s) = total_packets (sender s) then
        let s1 = (if \<not> is_finishing s then s\<lparr>is_finishing := True\<rparr> else s);
            s2 = process_channel_only s1
        in Inr (s2\<lparr>current_time := current_time s2 + 1\<rparr>)
      else
        case timeout_check s of
          Inl e \<Rightarrow> Inl e
        | Inr s1 \<Rightarrow>
            let s2 = send_burst 0 s1;
                s3 = process_channel_only s2
            in Inr (s3\<lparr>current_time := current_time s3 + 1\<rparr>))"

text \<open>
  The driver: from the state built by \<open>start_sim\<close>, a step is a tick that completes,
  or a stop (the STOP button or the stop scheduled when the run finishes).
\<close>

inductive reachable :: "config \<Rightarrow> GbnSimulator \<Rightarrow> bool" for cfg :: config where
  start: "reachable cfg (start_sim cfg)"
| tick: "reachable cfg s \<Longrightarrow> simulation_tick s = Inr s' \<Longrightarrow> reachable cfg s'"
| stop: "reachable cfg s \<Longrightarrow> reachable cfg (stop_sim s)"

text \<open>A run of \<open>n\<close> ticks; an error ends it.\<close>

fun run :: "nat \<Rightarrow> GbnSimulator \<Rightarrow> error + GbnSimulator" where
  "run 0 s = Inr s"
| "run (Suc n) s = (case simulation_tick s of Inl e \<Rightarrow> Inl e | Inr s' \<Rightarrow> run n s')"

subsection \<open>Specification-side definitions\<close>

text \<open>
  The configurations the specification calls validated: positive sizes and timeout, a
  non-negative delay, loss entries within \<open>[0, totalPackets)\<close>. The source performs no such
  check; the predicate is only used as a hypothesis.
\<close>

definition valid_config :: "config \<Rightarrow> bool" where
  "valid_config cfg \<longleftrightarrow>
     0 < cfg_total cfg \<and> 0 < cfg_win cfg \<and> 0 < cfg_timeout cfg \<and> 0 \<le> cfg_delay cfg \<and>
     (\<forall>k \<in> set (cfg_data_drops cfg). 0 \<le> k \<and> k < cfg_total cfg) \<and>
     (\<forall>k \<in> set (cfg_ack_drops cfg). 0 \<le> k \<and> k < cfg_total cfg)"

text \<open>The parts of the invariant of the driver.\<close>

definition window_inv :: "Sender \<Rightarrow> bool" where
  "window_inv sdr \<longleftrightarrow>
     0 \<le> base sdr \<and> base sdr \<le> next_seq sdr \<and> next_seq sdr \<le> total_packets sdr \<and>
     next_seq sdr - base sdr \<le> window_size sdr"

definition buffer_inv :: "Sender \<Rightarrow> bool" where
  "buffer_inv sdr \<longleftrightarrow>
     (\<forall>k. buffer sdr k = (if 0 \<le> k \<and> k < next_seq sdr then Some (new_packet k) else None))"

definition timer_inv :: "Sender \<Rightarrow> bool" where
  "timer_inv sdr \<longleftrightarrow> (timer_start sdr \<noteq> - 1 \<longleftrightarrow> base sdr \<noteq> next_seq sdr)"

definition queue_below :: "int \<Rightarrow> item list \<Rightarrow> bool" where
  "queue_below n q \<longleftrightarrow> (\<forall>item \<in> set q. seq_num (fst (snd item)) < n)"

definition queue_inv :: "GbnSimulator \<Rightarrow> bool" where
  "queue_inv s \<longleftrightarrow>
     expected_seq (receiver s) \<le> next_seq (sender s) \<and>
     queue_below (next_seq (sender s)) (packet_queue (channel s))"

definition inv :: "GbnSimulator \<Rightarrow> bool" where
  "inv s \<longleftrightarrow>
     window_inv (sender s) \<and> buffer_inv (sender s) \<and> timer_inv (sender s) \<and> queue_inv s \<and>
     0 \<le> current_time s"

text \<open>What no step changes, and the agreement of the two receiver counters.\<close>

definition frame_inv :: "config \<Rightarrow> GbnSimulator \<Rightarrow> bool" where
  "frame_inv cfg s \<longleftrightarrow>
     window_size (sender s) = cfg_win cfg \<and> total_packets (sender s) = cfg_total cfg \<and>
     timeout (sender s) = cfg_timeout cfg \<and> delay (channel s) = cfg_delay cfg \<and>
     delivered_count (receiver s) = expected_seq (receiver s)"



text \<open>Scenario C of the specification, and the state after \<open>n\<close> ticks of it.\<close>

definition scenario_C :: config where
  "scenario_C = \<lparr>cfg_total = 3, cfg_win = 3, cfg_timeout = 3, cfg_delay = 1,
                  cfg_data_drops = [], cfg_ack_drops = [0]\<rparr>"

definition state_C :: "nat \<Rightarrow> GbnSimulator" where
  "state_C n = projr (run n (start_sim scenario_C))"




text \<open>The loss list of a kind of packet, and the results of the offers of one kind and number.\<close>

fun loss_list :: "ptype \<Rightarrow> Channel \<Rightarrow> int list" where
  "loss_list DATA ch = loss_data ch"
| "loss_list ACK ch = loss_ack ch"

definition results_for :: "ptype \<Rightarrow> int \<Rightarrow> (Packet \<times> status) list \<Rightarrow> status list" where
  "results_for kind k rs = map snd (filter (\<lambda>r. type (fst r) = kind \<and> seq_num (fst r) = k) rs)"

text \<open>
  Observers of a run: the kinds and numbers of the packets in flight; the state of a
  normal tick after its steps 1 and 2, before the arrivals are delivered; and the values
  \<open>base\<close> takes while the arrivals of the tick are processed one by one.
\<close>

definition queue_kinds :: "GbnSimulator \<Rightarrow> (ptype \<times> int) list" where
  "queue_kinds s =
     map (\<lambda>item. (type (fst (snd item)), seq_num (fst (snd item)))) (packet_queue (channel s))"

definition before_delivery :: "GbnSimulator \<Rightarrow> GbnSimulator" where
  "before_delivery s =
     (if base (sender s) = total_packets (sender s) then s
      else send_burst 0 (projr (timeout_check s)))"

fun bases_during :: "item list \<Rightarrow> GbnSimulator \<Rightarrow> int list" where
  "bases_during [] s = []"
| "bases_during (item # arrivals) s =
     base (sender (process_item item s)) # bases_during arrivals (process_item item s)"

definition tick_bases :: "GbnSimulator \<Rightarrow> int list" where
  "tick_bases s =
     (let s2 = before_delivery s;
          (arrivals, ch) = get_delivered_packets (channel s2) (current_time s2)
      in bases_during arrivals (s2\<lparr>channel := ch\<rparr>))"



section \<open>Properties\<close>

subsection \<open>The channel\<close>

lemma send_to_network_queue:
  "packet_queue (snd (send_to_network ch p d t off)) =
     (if fst (send_to_network ch p d t off) = DROP then packet_queue ch
      else packet_queue ch @ [(t + off + of_int (delay ch), p, d, t + off)])"
  by (cases "type p") (simp_all add: send_to_network_def check_loss_def Let_def)

lemma send_to_network_delay [simp]:
  "delay (snd (send_to_network ch p d t off)) = delay ch"
  by (cases "type p") (simp_all add: send_to_network_def check_loss_def Let_def)

lemma get_delivered_packets_delay [simp]:
  "delay (snd (get_delivered_packets ch t)) = delay ch"
  by (simp add: get_delivered_packets_def Let_def)

lemma queue_below_Nil [simp]: "queue_below n []"
  by (simp add: queue_below_def)

lemma queue_below_send:
  "queue_below n (packet_queue ch) \<Longrightarrow> seq_num p < n \<Longrightarrow>
   queue_below n (packet_queue (snd (send_to_network ch p d t off)))"
  by (auto simp: queue_below_def send_to_network_queue)

lemma queue_below_mono: "queue_below n q \<Longrightarrow> n \<le> m \<Longrightarrow> queue_below m q"
  by (fastforce simp: queue_below_def)

lemma queue_below_get:
  assumes "queue_below n (packet_queue ch)"
  shows "queue_below n (fst (get_delivered_packets ch t))"
    and "queue_below n (packet_queue (snd (get_delivered_packets ch t)))"
  using assms by (auto simp: queue_below_def get_delivered_packets_def Let_def)

lemma seq_num_new_packet [simp]: "seq_num (new_packet k) = k" "type (new_packet k) = DATA"
  by (simp_all add: new_packet_def)

subsection \<open>The invariant of the driver\<close>

lemma inv_start: "valid_config cfg \<Longrightarrow> inv (start_sim cfg)"
  by (simp add: inv_def window_inv_def buffer_inv_def timer_inv_def queue_inv_def start_sim_def
      Sender_init_def Receiver_init_def Channel_init_def valid_config_def)

lemma inv_stop: "inv s \<Longrightarrow> inv (stop_sim s)"
  by (simp add: inv_def queue_inv_def stop_sim_def)

lemma inv_process_item:
  assumes "inv s" and "seq_num (fst (snd item)) < next_seq (sender s)"
  shows "inv (process_item item s)"
proof -
  obtain a p d st where item: "item = (a, p, d, st)" by (cases item) auto
  show ?thesis
    using assms unfolding item
    by (auto simp: process_item_def Let_def inv_def window_inv_def buffer_inv_def
        timer_inv_def queue_inv_def intro!: queue_below_send)
qed

lemma next_seq_process_item [simp]:
  "next_seq (sender (process_item item s)) = next_seq (sender s)"
  by (cases item) (simp add: process_item_def Let_def)

lemma inv_process_items:
  "inv s \<Longrightarrow> queue_below (next_seq (sender s)) arrivals \<Longrightarrow> inv (process_items arrivals s)"
  by (induction arrivals arbitrary: s) (simp_all add: inv_process_item queue_below_def)

lemma inv_process_channel_only:
  assumes "inv s"
  shows "inv (process_channel_only s)"
proof -
  obtain arrivals ch where g: "get_delivered_packets (channel s) (current_time s) = (arrivals, ch)"
    by (cases "get_delivered_packets (channel s) (current_time s)")
  have a: "queue_below (next_seq (sender s)) arrivals"
    using assms queue_below_get(1) [of _ "channel s" "current_time s"] g
    by (auto simp: inv_def queue_inv_def)
  have "inv (s\<lparr>channel := ch\<rparr>)"
    using assms queue_below_get(2) [of _ "channel s" "current_time s"] g
    by (auto simp: inv_def queue_inv_def)
  then show ?thesis
    using a g by (simp add: process_channel_only_def inv_process_items)
qed

lemma inv_send_one: "inv s \<Longrightarrow> can_send (sender s) \<Longrightarrow> inv (send_one off s)"
  by (auto simp: inv_def window_inv_def buffer_inv_def timer_inv_def queue_inv_def
      send_one_def Let_def can_send_def intro!: queue_below_send elim: queue_below_mono)

lemma inv_send_burst: "inv s \<Longrightarrow> inv (send_burst off s)"
proof (induction off s rule: send_burst.induct)
  case (1 off s)
  show ?case
  proof (cases "can_send (sender s)")
    case True
    with 1 show ?thesis by (subst send_burst.simps) (simp add: inv_send_one)
  next
    case False
    with 1 show ?thesis by (subst send_burst.simps) simp
  qed
qed

lemma retransmit_window_ok:
  assumes "inv s" and "\<forall>k \<in> set seqs. 0 \<le> k \<and> k < next_seq (sender s)"
  shows "\<exists>s'. retransmit_window seqs off s = Inr s' \<and> inv s'"
  using assms
proof (induction seqs arbitrary: off s)
  case Nil
  then show ?case by simp
next
  case (Cons k seqs)
  let ?s1 = "s\<lparr>sender := (sender s)\<lparr>duplicate_pkts := duplicate_pkts (sender s) + 1\<rparr>,
               channel := snd (send_to_network (channel s) (new_packet k) Receiver
                                 (of_int (current_time s)) off)\<rparr>"
  from Cons.prems have k: "0 \<le> k" "k < next_seq (sender s)" by auto
  with Cons.prems have b: "buffer (sender s) k = Some (new_packet k)"
    by (simp add: inv_def buffer_inv_def)
  have "inv ?s1"
    using Cons.prems(1) k
    by (auto simp: inv_def window_inv_def buffer_inv_def timer_inv_def queue_inv_def
        intro!: queue_below_send)
  moreover have "\<forall>j \<in> set seqs. 0 \<le> j \<and> j < next_seq (sender ?s1)"
    using Cons.prems(2) by simp
  ultimately obtain s' where "retransmit_window seqs (off + 1 / 5) ?s1 = Inr s'" "inv s'"
    using Cons.IH by blast
  then show ?case using b by (simp add: Let_def)
qed

lemma timeout_check_ok:
  assumes "inv s"
  shows "\<exists>s'. timeout_check s = Inr s' \<and> inv s'"
proof (cases "check_timer (sender s) (current_time s)")
  case False
  with assms show ?thesis by (simp add: timeout_check_def)
next
  case True
  let ?s1 = "s\<lparr>sender := (sender s)\<lparr>retransmissions := retransmissions (sender s) + 1,
                                     timer_start := current_time s\<rparr>\<rparr>"
  from True have ne: "base (sender s) \<noteq> next_seq (sender s)"
    by (auto simp: check_timer_def split: if_splits)
  have "inv ?s1"
    using assms ne
    by (auto simp: inv_def window_inv_def buffer_inv_def timer_inv_def queue_inv_def)
  moreover have "\<forall>k \<in> set [base (sender ?s1)..next_seq (sender ?s1) - 1].
      0 \<le> k \<and> k < next_seq (sender ?s1)"
    using assms by (auto simp: inv_def window_inv_def)
  ultimately show ?thesis
    using True retransmit_window_ok [of ?s1 "[base (sender ?s1)..next_seq (sender ?s1) - 1]" 0]
    by (simp add: timeout_check_def Let_def)
qed

lemma inv_time: "inv s \<Longrightarrow> inv (s\<lparr>current_time := current_time s + 1\<rparr>)"
  by (simp add: inv_def queue_inv_def)

lemma inv_finishing: "inv s \<Longrightarrow> inv (s\<lparr>is_finishing := True\<rparr>)"
  by (simp add: inv_def queue_inv_def)

lemma simulation_tick_ok:
  assumes "inv s"
  shows "\<exists>s'. simulation_tick s = Inr s' \<and> inv s'"
proof -
  obtain s1 where s1: "timeout_check s = Inr s1" "inv s1"
    using timeout_check_ok [OF assms] by blast
  show ?thesis
    using assms s1
    by (auto simp: simulation_tick_def Let_def
        intro!: inv_time inv_process_channel_only inv_send_burst inv_finishing)
qed

lemma reachable_inv:
  assumes "valid_config cfg" and "reachable cfg s"
  shows "inv s"
  using assms(2)
proof (induction rule: reachable.induct)
  case start
  show ?case using assms(1) by (rule inv_start)
next
  case (tick s s')
  then show ?case using simulation_tick_ok [of s] by auto
next
  case (stop s)
  then show ?case by (simp add: inv_stop)
qed

lemma run_reachable:
  assumes "valid_config cfg" and "reachable cfg s"
  shows "\<exists>s'. run n s = Inr s' \<and> reachable cfg s'"
  using assms(2)
proof (induction n arbitrary: s)
  case 0
  then show ?case by simp
next
  case (Suc n)
  obtain s1 where s1: "simulation_tick s = Inr s1"
    using simulation_tick_ok [OF reachable_inv [OF assms(1) Suc.prems]] by blast
  then have "reachable cfg s1" using Suc.prems by (rule reachable.tick [rotated])
  from Suc.IH [OF this] s1 show ?case by simp
qed

subsection \<open>What the steps leave alone\<close>

lemma frame_start: "frame_inv cfg (start_sim cfg)"
  by (simp add: frame_inv_def start_sim_def Sender_init_def Receiver_init_def Channel_init_def)

lemma frame_stop: "frame_inv cfg s \<Longrightarrow> frame_inv cfg (stop_sim s)"
  by (simp add: frame_inv_def stop_sim_def)

lemma frame_process_item: "frame_inv cfg s \<Longrightarrow> frame_inv cfg (process_item item s)"
  by (cases item) (simp add: frame_inv_def process_item_def Let_def)

lemma frame_process_items: "frame_inv cfg s \<Longrightarrow> frame_inv cfg (process_items arrivals s)"
  by (induction arrivals arbitrary: s) (simp_all add: frame_process_item)

lemma frame_process_channel_only:
  assumes "frame_inv cfg s"
  shows "frame_inv cfg (process_channel_only s)"
proof -
  have "frame_inv cfg (s\<lparr>channel := snd (get_delivered_packets (channel s) (current_time s))\<rparr>)"
    using assms by (simp add: frame_inv_def)
  then show ?thesis
    by (simp add: process_channel_only_def split_beta frame_process_items)
qed

lemma frame_send_one: "frame_inv cfg s \<Longrightarrow> frame_inv cfg (send_one off s)"
  by (simp add: frame_inv_def send_one_def Let_def)

lemma frame_send_burst: "frame_inv cfg s \<Longrightarrow> frame_inv cfg (send_burst off s)"
proof (induction off s rule: send_burst.induct)
  case (1 off s)
  then show ?case
    by (subst send_burst.simps) (simp add: frame_send_one)
qed

lemma frame_retransmit_window:
  "frame_inv cfg s \<Longrightarrow> retransmit_window seqs off s = Inr s' \<Longrightarrow> frame_inv cfg s'"
proof (induction seqs arbitrary: off s)
  case Nil
  then show ?case by simp
next
  case (Cons k seqs)
  from Cons.prems(2) obtain p where p: "buffer (sender s) k = Some p"
    by (auto simp: Let_def split: option.splits)
  let ?s1 = "s\<lparr>sender := (sender s)\<lparr>duplicate_pkts := duplicate_pkts (sender s) + 1\<rparr>,
               channel := snd (send_to_network (channel s) p Receiver
                                 (of_int (current_time s)) off)\<rparr>"
  have "frame_inv cfg ?s1" using Cons.prems(1) by (simp add: frame_inv_def)
  moreover have "retransmit_window seqs (off + 1 / 5) ?s1 = Inr s'"
    using Cons.prems(2) p by (simp add: Let_def)
  ultimately show ?case by (rule Cons.IH)
qed

lemma frame_timeout_check:
  assumes "frame_inv cfg s" and "timeout_check s = Inr s'"
  shows "frame_inv cfg s'"
proof (cases "check_timer (sender s) (current_time s)")
  case False
  with assms show ?thesis by (simp add: timeout_check_def)
next
  case True
  let ?s1 = "s\<lparr>sender := (sender s)\<lparr>retransmissions := retransmissions (sender s) + 1,
                                     timer_start := current_time s\<rparr>\<rparr>"
  have "frame_inv cfg ?s1" using assms(1) by (simp add: frame_inv_def)
  moreover have "retransmit_window [base (sender s)..next_seq (sender s) - 1] 0 ?s1 = Inr s'"
    using assms(2) True by (simp add: timeout_check_def Let_def)
  ultimately show ?thesis by (rule frame_retransmit_window)
qed

lemma frame_simulation_tick:
  assumes "frame_inv cfg s" and "simulation_tick s = Inr s'"
  shows "frame_inv cfg s'"
proof -
  have t: "\<And>u. frame_inv cfg u \<Longrightarrow> frame_inv cfg (u\<lparr>current_time := current_time u + 1\<rparr>)"
    and f: "\<And>u. frame_inv cfg u \<Longrightarrow> frame_inv cfg (u\<lparr>is_finishing := True\<rparr>)"
    by (simp_all add: frame_inv_def)
  show ?thesis
    using assms
    by (auto simp: simulation_tick_def Let_def split: if_splits sum.splits
        intro!: t f frame_process_channel_only frame_send_burst
        dest: frame_timeout_check)
qed

lemma reachable_frame: "reachable cfg s \<Longrightarrow> frame_inv cfg s"
  by (induction rule: reachable.induct)
     (auto simp: frame_start frame_stop dest: frame_simulation_tick)

lemma receiver_send_burst [simp]: "receiver (send_burst off s) = receiver s"
proof (induction off s rule: send_burst.induct)
  case (1 off s)
  then show ?case
    by (subst send_burst.simps) (simp add: send_one_def Let_def)
qed

lemma receiver_retransmit_window:
  "retransmit_window seqs off s = Inr s' \<Longrightarrow> receiver s' = receiver s"
proof (induction seqs arbitrary: off s)
  case Nil
  then show ?case by simp
next
  case (Cons k seqs)
  from Cons.prems obtain p where p: "buffer (sender s) k = Some p"
    by (auto simp: Let_def split: option.splits)
  from Cons.prems p Cons.IH [of "off + 1 / 5"] show ?case
    by (fastforce simp: Let_def)
qed

lemma receiver_timeout_check: "timeout_check s = Inr s' \<Longrightarrow> receiver s' = receiver s"
  by (auto simp: timeout_check_def Let_def split: if_splits dest: receiver_retransmit_window)

subsection \<open>Scenario C\<close>

lemma valid_scenario_C: "valid_config scenario_C"
  by (simp add: valid_config_def scenario_C_def)

lemma reachable_state_C: "reachable scenario_C (state_C n)"
  using run_reachable [OF valid_scenario_C reachable.start, of n]
  by (auto simp: state_C_def)

subsection \<open>The two bursts in closed form\<close>









subsection \<open>Loss lists along a history of the channel\<close>





lemma loss_list_get [simp]:
  "loss_list kind (snd (get_delivered_packets ch t)) = loss_list kind ch"
  by (cases kind) (simp_all add: get_delivered_packets_def Let_def)

lemma results_for_simps [simp]:
  "results_for kind k [] = []"
  "results_for kind k ((p, st) # rs) =
     (if type p = kind \<and> seq_num p = k then st # results_for kind k rs
      else results_for kind k rs)"
  by (simp_all add: results_for_def)


subsection \<open>The channel of a run has a history of calls\<close>














subsection \<open>A number listed once is consumed by the first offer of its packet\<close>




















subsection \<open>The run of scenario C once everything has settled\<close>

lemma run_snoc:
  "run (Suc n) s = (case run n s of Inl e \<Rightarrow> Inl e | Inr s' \<Rightarrow> simulation_tick s')"
proof (induction n arbitrary: s)
  case 0
  show ?case by (simp split: sum.splits)
next
  case (Suc n)
  show ?case
  proof (cases "simulation_tick s")
    case (Inl e)
    then show ?thesis by simp
  next
    case (Inr s1)
    then have a: "run (Suc (Suc n)) s = run (Suc n) s1" and b: "run (Suc n) s = run n s1"
      by simp_all
    show ?thesis unfolding a b by (rule Suc.IH)
  qed
qed

lemma run_state_C: "run n (start_sim scenario_C) = Inr (state_C n)"
  using run_reachable [OF valid_scenario_C reachable.start, of n]
  by (auto simp: state_C_def)

lemma state_C_Suc: "simulation_tick (state_C n) = Inr (state_C (Suc n))"
proof -
  have "run (Suc n) (start_sim scenario_C) = simulation_tick (state_C n)"
    unfolding run_snoc by (simp add: run_state_C)
  then show ?thesis by (simp add: run_state_C)
qed

lemma simulation_tick_idle:
  assumes "running s" and "base (sender s) = total_packets (sender s)"
    and "packet_queue (channel s) = []"
  shows "simulation_tick s = Inr (s\<lparr>is_finishing := True, current_time := current_time s + 1\<rparr>)"
proof -
  have "s\<lparr>channel := (channel s)\<lparr>packet_queue := []\<rparr>\<rparr> = s"
    using assms(3) by simp
  then have "\<And>u. u = s \<or> u = s\<lparr>is_finishing := True\<rparr> \<Longrightarrow> process_channel_only u = u"
    using assms(3) by (auto simp: process_channel_only_def get_delivered_packets_def Let_def)
  then show ?thesis
    using assms(1,2) by (auto simp: simulation_tick_def Let_def)
qed

lemma tick_bases_idle:
  assumes "base (sender s) = total_packets (sender s)" and "packet_queue (channel s) = []"
  shows "tick_bases s = []"
  using assms by (simp add: tick_bases_def before_delivery_def get_delivered_packets_def Let_def)

lemma state_C_settled:
  "running (state_C (6 + n)) \<and> base (sender (state_C (6 + n))) = 3 \<and>
   total_packets (sender (state_C (6 + n))) = 3 \<and> packet_queue (channel (state_C (6 + n))) = []"
proof (induction n)
  case 0
  have "running (state_C 6)" "base (sender (state_C 6)) = 3"
    "total_packets (sender (state_C 6)) = 3" "packet_queue (channel (state_C 6)) = []"
    by code_simp+
  then show ?case by simp
next
  case (Suc n)
  then have "simulation_tick (state_C (6 + n)) =
      Inr ((state_C (6 + n))\<lparr>is_finishing := True,
             current_time := current_time (state_C (6 + n)) + 1\<rparr>)"
    by (intro simulation_tick_idle) simp_all
  then have "state_C (6 + Suc n) =
      (state_C (6 + n))\<lparr>is_finishing := True, current_time := current_time (state_C (6 + n)) + 1\<rparr>"
    using state_C_Suc [of "6 + n"] by simp
  with Suc show ?case by simp
qed

lemma state_C_cases:
  fixes n :: nat
  obtains "n = 0" | "n = 1" | "n = 2" | "n = 3" | "n = 4" | "n = 5" | m where "n = 6 + m"
proof -
  have "n = 0 \<or> n = 1 \<or> n = 2 \<or> n = 3 \<or> n = 4 \<or> n = 5 \<or> (\<exists>m. n = 6 + m)"
    by presburger
  then show thesis using that by blast
qed

section \<open>The claims\<close>

text \<open>
  C1. An ACK addressed to the sender, processed at tick \<open>now = current_time\<close>: if its
  sequence number is at least \<open>base\<close>, \<open>base\<close> becomes that number plus one, however many
  packets that acknowledges at once, and the timer is restarted at \<open>now\<close> if packets remain
  outstanding (\<open>base < next_seq\<close>) and cleared (set to \<open>-1\<close>) otherwise; nothing else
  changes. An ACK below \<open>base\<close> leaves the whole state unchanged, so processing the same
  ACK a second time changes nothing.
\<close>

theorem ack_processing:
  assumes "dst = Sender" and "type pkt = ACK"
  shows "process_item (arrival_time, pkt, dst, send_time) s =
          (if seq_num pkt \<ge> base (sender s)
           then s\<lparr>sender := (sender s)\<lparr>base := seq_num pkt + 1,
                    timer_start := (if seq_num pkt + 1 < next_seq (sender s)
                                    then current_time s else - 1)\<rparr>\<rparr>
           else s) \<and>
         process_item (arrival_time, pkt, dst, send_time)
           (process_item (arrival_time, pkt, dst, send_time) s) =
         process_item (arrival_time, pkt, dst, send_time) s"
  using assms by (simp add: process_item_def Let_def)

theorem ack_processing_witness:
  "Sender = Sender \<and> type \<lparr>type = ACK, seq_num = 1, data = None\<rparr> = ACK \<and>
   base (sender (state_C 3)) = 0 \<and> next_seq (sender (state_C 3)) = 3 \<and>
   process_item (11 / 5, \<lparr>type = ACK, seq_num = 1, data = None\<rparr>, Sender, 6 / 5) (state_C 3) =
     (state_C 3)\<lparr>sender := (sender (state_C 3))\<lparr>base := 2, timer_start := 3\<rparr>\<rparr>"
proof -
  have e: "base (sender (state_C 3)) = 0" "next_seq (sender (state_C 3)) = 3"
    "current_time (state_C 3) = 3"
    by code_simp+
  show ?thesis
    using ack_processing [of Sender "\<lparr>type = ACK, seq_num = 1, data = None\<rparr>" "11 / 5" "6 / 5"
        "state_C 3"] e
    by simp
qed

text \<open>
  C7. A DATA packet above \<open>expected_seq\<close> is discarded: \<open>expected_seq\<close> and
  \<open>delivered_count\<close> keep their values. If \<open>expected_seq > 0\<close> and \<open>last_ack_sent\<close> differs
  from \<open>expected_seq - 1\<close>, \<open>last_ack_sent\<close> becomes \<open>expected_seq - 1\<close> and an ACK with that
  number is offered to the channel at the packet's arrival time with offset 0; in every
  other case (the last ACK was already that one, or \<open>expected_seq = 0\<close>) the state,
  channel included, is unchanged.
\<close>

theorem out_of_order_data:
  assumes "dst = Receiver" and "type pkt = DATA" and "seq_num pkt > expected_seq (receiver s)"
  shows "process_item (arrival_time, pkt, dst, send_time) s =
          (if expected_seq (receiver s) > 0 \<and>
              last_ack_sent (receiver s) \<noteq> expected_seq (receiver s) - 1
           then s\<lparr>receiver := (receiver s)\<lparr>last_ack_sent := expected_seq (receiver s) - 1\<rparr>,
                  channel := snd (send_to_network (channel s)
                      \<lparr>type = ACK, seq_num = expected_seq (receiver s) - 1, data = None\<rparr>
                      Sender arrival_time 0)\<rparr>
           else s) \<and>
         expected_seq (receiver (process_item (arrival_time, pkt, dst, send_time) s)) =
           expected_seq (receiver s) \<and>
         delivered_count (receiver (process_item (arrival_time, pkt, dst, send_time) s)) =
           delivered_count (receiver s)"
  using assms by (simp add: process_item_def Let_def)

theorem out_of_order_data_witness:
  "Receiver = Receiver \<and> type (new_packet 2) = DATA \<and>
   seq_num (new_packet 2) > expected_seq (receiver (state_C 2)) \<and>
   expected_seq (receiver (state_C 2)) = 1 \<and> last_ack_sent (receiver (state_C 2)) = 0 \<and>
   process_item (7 / 5, new_packet 2, Receiver, 2 / 5) (state_C 2) = state_C 2"
proof -
  have e: "expected_seq (receiver (state_C 2)) = 1" "last_ack_sent (receiver (state_C 2)) = 0"
    by code_simp+
  show ?thesis
    using out_of_order_data [of Receiver "new_packet 2" "state_C 2" "7 / 5" "2 / 5"] e
    by simp
qed

text \<open>
  C8. A DATA packet below \<open>expected_seq\<close> is dropped silently: the whole state is
  unchanged, so the receiver keeps \<open>expected_seq\<close>, \<open>delivered_count\<close> and \<open>last_ack_sent\<close>,
  and the channel (loss lists and queue) receives no ACK.
\<close>

theorem duplicate_data:
  assumes "dst = Receiver" and "type pkt = DATA" and "seq_num pkt < expected_seq (receiver s)"
  shows "process_item (arrival_time, pkt, dst, send_time) s = s"
  using assms by (simp add: process_item_def)

theorem duplicate_data_witness:
  "Receiver = Receiver \<and> type (new_packet 0) = DATA \<and>
   seq_num (new_packet 0) < expected_seq (receiver (state_C 4)) \<and>
   process_item (4, new_packet 0, Receiver, 3) (state_C 4) = state_C 4"
proof -
  have e: "expected_seq (receiver (state_C 4)) = 3"
    by code_simp
  show ?thesis
    using duplicate_data [of Receiver "new_packet 0" "state_C 4" 4 3] e
    by simp
qed

text \<open>
  C3. In every state the driver reaches from a validated configuration,
  \<open>0 \<le> base \<le> next_seq \<le> total_packets\<close> and \<open>next_seq - base \<le> window_size\<close>, where
  \<open>total_packets\<close> and \<open>window_size\<close> are the configured values.
\<close>

theorem window_invariant:
  assumes "valid_config cfg" and "reachable cfg s"
  shows "0 \<le> base (sender s) \<and> base (sender s) \<le> next_seq (sender s) \<and>
         next_seq (sender s) \<le> total_packets (sender s) \<and>
         next_seq (sender s) - base (sender s) \<le> window_size (sender s) \<and>
         total_packets (sender s) = cfg_total cfg \<and> window_size (sender s) = cfg_win cfg"
  using reachable_inv [OF assms] reachable_frame [OF assms(2)]
  by (simp add: inv_def window_inv_def frame_inv_def)

theorem window_invariant_witness:
  "valid_config scenario_C \<and> reachable scenario_C (state_C 3) \<and>
   base (sender (state_C 3)) = 0 \<and> next_seq (sender (state_C 3)) = 3 \<and>
   total_packets (sender (state_C 3)) = 3 \<and> window_size (sender (state_C 3)) = 3"
proof -
  have e: "base (sender (state_C 3)) = 0" "next_seq (sender (state_C 3)) = 3"
    by code_simp+
  show ?thesis
    using window_invariant [OF valid_scenario_C reachable_state_C, of 3] e
      valid_scenario_C reachable_state_C [of 3]
    by (simp add: scenario_C_def)
qed

text \<open>
  C5, as stated: the keys of the buffer are exactly \<open>[base, next_seq)\<close>. It fails: the
  source never deletes a buffer entry. After four ticks of scenario C every packet is
  acknowledged, \<open>base = next_seq = 3\<close>, and the buffer still holds the key 0.
\<close>

theorem buffer_keys_counterexample:
  "valid_config scenario_C \<and> reachable scenario_C (state_C 4) \<and>
   base (sender (state_C 4)) = 3 \<and> next_seq (sender (state_C 4)) = 3 \<and>
   buffer (sender (state_C 4)) 0 = Some (new_packet 0) \<and>
   dom (buffer (sender (state_C 4))) \<noteq>
     {base (sender (state_C 4))..<next_seq (sender (state_C 4))}"
proof -
  have e: "base (sender (state_C 4)) = 3" "next_seq (sender (state_C 4)) = 3"
    by code_simp+
  have "buffer_inv (sender (state_C 4))"
    using reachable_inv [OF valid_scenario_C reachable_state_C] by (simp add: inv_def)
  then have b: "buffer (sender (state_C 4)) 0 = Some (new_packet 0)"
    using e by (simp add: buffer_inv_def)
  then have "0 \<in> dom (buffer (sender (state_C 4)))" by blast
  then show ?thesis
    using e b valid_scenario_C reachable_state_C [of 4] by auto
qed

text \<open>
  C5, amended. In every state the driver reaches from a validated configuration, the
  keys of the buffer are exactly \<open>[0, next_seq)\<close>, each key \<open>k\<close> holding the DATA packet
  made for \<open>k\<close>; so the window \<open>[base, next_seq)\<close> is always buffered, and a tick never
  fails on a missing key. The timer is active (\<open>timer_start \<noteq> -1\<close>) if and only if
  \<open>base \<noteq> next_seq\<close>.
\<close>

theorem buffer_and_timer_invariant:
  assumes "valid_config cfg" and "reachable cfg s"
  shows "dom (buffer (sender s)) = {0..<next_seq (sender s)} \<and>
         {base (sender s)..<next_seq (sender s)} \<subseteq> dom (buffer (sender s)) \<and>
         (\<forall>k \<in> dom (buffer (sender s)). buffer (sender s) k = Some (new_packet k)) \<and>
         (\<exists>s'. simulation_tick s = Inr s') \<and>
         (timer_start (sender s) \<noteq> - 1 \<longleftrightarrow> base (sender s) \<noteq> next_seq (sender s))"
proof -
  have i: "inv s" using assms by (rule reachable_inv)
  then have b: "\<And>k. buffer (sender s) k =
      (if 0 \<le> k \<and> k < next_seq (sender s) then Some (new_packet k) else None)"
    and w: "0 \<le> base (sender s)"
    and t: "timer_start (sender s) \<noteq> - 1 \<longleftrightarrow> base (sender s) \<noteq> next_seq (sender s)"
    by (simp_all add: inv_def buffer_inv_def window_inv_def timer_inv_def)
  have d: "dom (buffer (sender s)) = {0..<next_seq (sender s)}"
    by (auto simp: dom_def b)
  have "\<exists>s'. simulation_tick s = Inr s'"
    using simulation_tick_ok [OF i] by blast
  then show ?thesis
    using d w t by (auto simp: b)
qed

theorem buffer_and_timer_invariant_witness:
  "valid_config scenario_C \<and> reachable scenario_C (state_C 4) \<and>
   dom (buffer (sender (state_C 4))) = {0..<3} \<and> base (sender (state_C 4)) = 3 \<and>
   timer_start (sender (state_C 4)) = - 1"
proof -
  have e: "base (sender (state_C 4)) = 3" "next_seq (sender (state_C 4)) = 3"
    by code_simp+
  show ?thesis
    using buffer_and_timer_invariant [OF valid_scenario_C reachable_state_C, of 4] e
      valid_scenario_C reachable_state_C [of 4]
    by simp
qed

text \<open>
  C10. In every state the driver reaches, from any configuration,
  \<open>delivered_count = expected_seq\<close>. Both are 0 at the start; processing an arrival adds
  one to each when it is a DATA packet for the receiver with \<open>seq_num = expected_seq\<close> and
  leaves both alone otherwise; the retransmission, the window filling and the stop do not
  touch the receiver.
\<close>

theorem receiver_counters:
  assumes "reachable cfg s"
  shows "delivered_count (receiver s) = expected_seq (receiver s) \<and>
         expected_seq (receiver (start_sim cfg)) = 0 \<and>
         delivered_count (receiver (start_sim cfg)) = 0 \<and>
         expected_seq (receiver (process_item (arrival_time, pkt, dst, send_time) s)) =
           (if dst = Receiver \<and> type pkt = DATA \<and> seq_num pkt = expected_seq (receiver s)
            then expected_seq (receiver s) + 1 else expected_seq (receiver s)) \<and>
         delivered_count (receiver (process_item (arrival_time, pkt, dst, send_time) s)) =
           (if dst = Receiver \<and> type pkt = DATA \<and> seq_num pkt = expected_seq (receiver s)
            then delivered_count (receiver s) + 1 else delivered_count (receiver s)) \<and>
         receiver (send_burst off s) = receiver s \<and>
         (\<forall>s'. timeout_check s = Inr s' \<longrightarrow> receiver s' = receiver s) \<and>
         receiver (stop_sim s) = receiver s"
  using reachable_frame [OF assms]
  by (auto simp: frame_inv_def process_item_def Let_def start_sim_def Receiver_init_def
      stop_sim_def dest: receiver_timeout_check)

theorem receiver_counters_witness:
  "reachable scenario_C (state_C 2) \<and> delivered_count (receiver (state_C 2)) = 1 \<and>
   expected_seq (receiver (state_C 2)) = 1"
proof -
  have e: "expected_seq (receiver (state_C 2)) = 1"
    by code_simp
  show ?thesis
    using receiver_counters [OF reachable_state_C, of 2] e reachable_state_C [of 2]
    by simp
qed








text \<open>
  C9, as stated: in scenario C \<open>base\<close> advances to 1 only after the ACK#0 that answers the
  retransmitted DATA#0 succeeds. It fails. \<open>base\<close> is still 0 at the start of tick 3; in
  that tick the timeout fires first and then ACK#1 and ACK#2 arrive, taking \<open>base\<close> to 2
  and to 3. After the tick \<open>base = 3\<close> while the three retransmitted DATA packets are still
  in flight, and there is no ACK in flight.
\<close>

theorem scenario_C_counterexample:
  "base (sender (state_C 3)) = 0 \<and> tick_bases (state_C 3) = [2, 3] \<and>
   base (sender (state_C 4)) = 3 \<and>
   queue_kinds (state_C 4) = [(DATA, 0), (DATA, 1), (DATA, 2)] \<and>
   retransmissions (sender (state_C 3)) = 0 \<and> retransmissions (sender (state_C 4)) = 1"
  by code_simp

text \<open>
  C9, amended. In the run with totalPackets = 3, windowSize = 3, delay = 1, timeout = 3,
  lossAck = {0} and no DATA losses: DATA#0 is the only arrival of tick 1, it is delivered
  (\<open>expected_seq\<close> and \<open>delivered_count\<close> become 1) and its ACK#0 is dropped by the channel,
  which empties the loss list. \<open>base\<close> is 0 up to the start of tick 3. In tick 3 the timeout
  fires (one retransmission event, the three packets offered again), and then the
  cumulative ACK#1 and ACK#2 arrive and take \<open>base\<close> from 0 to 2 and to 3. The
  retransmitted DATA#0 is the only arrival of tick 4 and is ignored as a duplicate: the
  receiver is unchanged and no ACK is sent. \<open>base\<close> is 3 from tick 4 on; it never has the
  value 1, neither between ticks nor while arrivals are processed; and no ACK#0 is ever
  in flight.
\<close>

theorem scenario_C_run:
  "fst (get_delivered_packets (channel (state_C 1)) 1) = [(1, new_packet 0, Receiver, 0)] \<and>
   loss_ack (channel (state_C 1)) = [0] \<and>
   fst (send_to_network (snd (get_delivered_packets (channel (state_C 1)) 1))
          \<lparr>type = ACK, seq_num = 0, data = None\<rparr> Sender 1 0) = DROP \<and>
   loss_ack (channel (state_C 2)) = [] \<and>
   expected_seq (receiver (state_C 2)) = 1 \<and> delivered_count (receiver (state_C 2)) = 1 \<and>
   queue_kinds (state_C 2) = [(DATA, 1), (DATA, 2)] \<and>
   (\<forall>n \<le> 3. base (sender (state_C n)) = 0) \<and>
   check_timer (sender (state_C 3)) (current_time (state_C 3)) \<and>
   retransmissions (sender (state_C 3)) = 0 \<and> retransmissions (sender (state_C 4)) = 1 \<and>
   duplicate_pkts (sender (state_C 4)) = 3 \<and>
   tick_bases (state_C 3) = [2, 3] \<and>
   queue_kinds (state_C 4) = [(DATA, 0), (DATA, 1), (DATA, 2)] \<and>
   fst (get_delivered_packets (channel (state_C 4)) 4) = [(4, new_packet 0, Receiver, 3)] \<and>
   receiver (state_C 5) = receiver (state_C 4) \<and>
   queue_kinds (state_C 5) = [(DATA, 1), (DATA, 2)] \<and>
   (\<forall>n \<ge> 4. base (sender (state_C n)) = 3) \<and>
   (\<forall>n. base (sender (state_C n)) \<noteq> 1 \<and> 1 \<notin> set (tick_bases (state_C n)) \<and>
        (ACK, 0) \<notin> set (queue_kinds (state_C n)))"
proof -
  have t1: "fst (get_delivered_packets (channel (state_C 1)) 1) = [(1, new_packet 0, Receiver, 0)]"
    "loss_ack (channel (state_C 1)) = [0]"
    "fst (send_to_network (snd (get_delivered_packets (channel (state_C 1)) 1))
          \<lparr>type = ACK, seq_num = 0, data = None\<rparr> Sender 1 0) = DROP"
    by code_simp+
  have t2: "loss_ack (channel (state_C 2)) = []"
    "expected_seq (receiver (state_C 2)) = 1" "delivered_count (receiver (state_C 2)) = 1"
    by code_simp+
  have t3: "check_timer (sender (state_C 3)) (current_time (state_C 3))"
    "retransmissions (sender (state_C 3)) = 0" "retransmissions (sender (state_C 4)) = 1"
    "duplicate_pkts (sender (state_C 4)) = 3"
    by code_simp+
  have t4: "fst (get_delivered_packets (channel (state_C 4)) 4) = [(4, new_packet 0, Receiver, 3)]"
    "receiver (state_C 5) = receiver (state_C 4)"
    by code_simp+
  have b: "base (sender (state_C 0)) = 0" "base (sender (state_C 1)) = 0"
    "base (sender (state_C 2)) = 0" "base (sender (state_C 3)) = 0"
    "base (sender (state_C 4)) = 3" "base (sender (state_C 5)) = 3"
    by code_simp+
  have q: "queue_kinds (state_C 0) = []" "queue_kinds (state_C 1) = [(DATA, 0), (DATA, 1), (DATA, 2)]"
    "queue_kinds (state_C 2) = [(DATA, 1), (DATA, 2)]" "queue_kinds (state_C 3) = [(ACK, 1), (ACK, 2)]"
    "queue_kinds (state_C 4) = [(DATA, 0), (DATA, 1), (DATA, 2)]"
    "queue_kinds (state_C 5) = [(DATA, 1), (DATA, 2)]"
    by code_simp+
  have d: "tick_bases (state_C 0) = []" "tick_bases (state_C 1) = [0]"
    "tick_bases (state_C 2) = [0, 0]" "tick_bases (state_C 3) = [2, 3]"
    "tick_bases (state_C 4) = [3]" "tick_bases (state_C 5) = [3, 3]"
    by code_simp+
  have late: "base (sender (state_C (6 + m))) = 3 \<and> tick_bases (state_C (6 + m)) = [] \<and>
      queue_kinds (state_C (6 + m)) = []" for m
    using state_C_settled [of m] by (simp add: tick_bases_idle queue_kinds_def)
  have low: "base (sender (state_C n)) = 0" if "n \<le> 3" for n
  proof -
    from that have "n = 0 \<or> n = 1 \<or> n = 2 \<or> n = 3" by presburger
    then show ?thesis using b by auto
  qed
  have high: "base (sender (state_C n)) = 3" if "4 \<le> n" for n
    using that by (cases n rule: state_C_cases) (simp_all add: b late del: One_nat_def)
  have never: "base (sender (state_C n)) \<noteq> 1 \<and> 1 \<notin> set (tick_bases (state_C n)) \<and>
      (ACK, 0) \<notin> set (queue_kinds (state_C n))" for n
    by (cases n rule: state_C_cases) (simp_all add: b q d late del: One_nat_def)
  show ?thesis
    using t1 t2 t3 t4 q(3,5,6) d(4) low high never by blast
qed

theorem scenario_C_run_witness:
  "base (sender (state_C 2)) = 0 \<and> base (sender (state_C 9)) = 3 \<and>
   (ACK, 0) \<notin> set (queue_kinds (state_C 9))"
  using scenario_C_run by simp

end
